theory Spec2Isabelle
  imports Main "HOL-Library.Word"
begin

section \<open>Python values and the library functions the program calls\<close>

text \<open>
  The program is \<^verbatim>\<open>src/bl_gui.py\<close>: the classes \<^verbatim>\<open>Block\<close> and \<^verbatim>\<open>Blockchain\<close> and the
  callback \<^verbatim>\<open>mine_block_gui\<close>. A Python \<^verbatim>\<open>float\<close> is kept as its 64-bit pattern, so two
  floats are the same value exactly when they print the same. A transaction amount is
  an \<^verbatim>\<open>int\<close> (the mining reward \<^verbatim>\<open>1\<close>) or a \<^verbatim>\<open>float\<close> (what the entry form passes).
  A Python \<^verbatim>\<open>str\<close> is a \<open>string\<close>, a list of characters with 256 values each; no
  definition or theorem below looks at which characters a text is made of, apart from
  the digits and the sign that \<^verbatim>\<open>str\<close> of an \<^verbatim>\<open>int\<close> produces.
\<close>

type_synonym pyfloat = "64 word"

datatype number = PyInt int | PyFloat pyfloat

datatype pyval =
    VInt int
  | VFloat pyfloat
  | VStr string
  | VList "pyval list"
  | VDict "(string \<times> pyval) list"

text \<open>
  Three functions of the Python runtime are not part of the program and are taken as
  parameters: \<open>sha256_hexdigest s\<close> stands for
  \<^verbatim>\<open>hashlib.sha256(s.encode()).hexdigest()\<close>, \<open>repr_float\<close> and \<open>repr_str\<close> for
  \<^verbatim>\<open>repr\<close> on a float and on a string. Every theorem below holds for all of them.
\<close>

record pylib =
  sha256_hexdigest :: "string \<Rightarrow> string"
  repr_float :: "pyfloat \<Rightarrow> string"
  repr_str :: "string \<Rightarrow> string"

text \<open>\<^verbatim>\<open>str\<close> of an \<^verbatim>\<open>int\<close>: the decimal digits, with a minus sign when negative.\<close>

definition digit_char :: "nat \<Rightarrow> char" where
  "digit_char d = char_of (48 + d)"

fun str_nat :: "nat \<Rightarrow> string" where
  "str_nat n = (if n < 10 then [digit_char n] else str_nat (n div 10) @ [digit_char (n mod 10)])"

declare str_nat.simps [simp del]

definition str_int :: "int \<Rightarrow> string" where
  "str_int i = (if i < 0 then CHR ''-'' # str_nat (nat (- i)) else str_nat (nat i))"

text \<open>\<^verbatim>\<open>sep.join(parts)\<close>.\<close>

fun join :: "string \<Rightarrow> string list \<Rightarrow> string" where
  "join sep [] = []"
| "join sep [x] = x"
| "join sep (x # y # ys) = x @ sep @ join sep (y # ys)"

text \<open>
  \<^verbatim>\<open>str\<close> of a value built from ints, floats, strings, lists and dicts; a dict prints its
  items in insertion order, so it is an association list.
\<close>

fun py_repr :: "pylib \<Rightarrow> pyval \<Rightarrow> string" where
  "py_repr L (VInt i) = str_int i"
| "py_repr L (VFloat f) = repr_float L f"
| "py_repr L (VStr s) = repr_str L s"
| "py_repr L (VList xs) = ''['' @ join '', '' (map (py_repr L) xs) @ '']''"
| "py_repr L (VDict kvs) =
     ''{'' @ join '', '' (map (\<lambda>(k, v). repr_str L k @ '': '' @ py_repr L v) kvs) @ ''}''"

section \<open>Blocks, transactions and the ledger\<close>

text \<open>
  Python lists are objects: \<^verbatim>\<open>create_block\<close> hands the pending list itself to the new
  block and \<^verbatim>\<open>add_transaction\<close> appends to the pending list in place. The lists of
  transactions therefore live in a store, and a block and the ledger hold references
  into it. \<open>next_ref\<close> is the first reference not yet allocated. No statement of the
  program assigns to a field of a \<^verbatim>\<open>Block\<close> or to a key of a transaction after its
  creation, so blocks and transactions are plain values.
\<close>

type_synonym ref = nat

record transaction =
  sender :: string
  recipient :: string
  amount :: number

record block =
  index :: int
  timestamp :: pyfloat
  transactions :: ref
  block_proof :: int
  previous_hash :: string

record blockchain =
  chain :: "block list"
  pending_transactions :: ref
  store :: "ref \<Rightarrow> transaction list"
  next_ref :: ref

datatype py_error = IndexError

fun number_val :: "number \<Rightarrow> pyval" where
  "number_val (PyInt i) = VInt i"
| "number_val (PyFloat f) = VFloat f"

text \<open>The dict literal of \<^verbatim>\<open>add_transaction\<close>, keys in the order written.\<close>

definition transaction_val :: "transaction \<Rightarrow> pyval" where
  "transaction_val tx =
     VDict [(''sender'', VStr (sender tx)),
            (''recipient'', VStr (recipient tx)),
            (''amount'', number_val (amount tx))]"

text \<open>\<^verbatim>\<open>Block.to_dict\<close>; the list of transactions is read from the store.\<close>

definition to_dict :: "(ref \<Rightarrow> transaction list) \<Rightarrow> block \<Rightarrow> pyval" where
  "to_dict st b =
     VDict [(''index'', VInt (index b)),
            (''timestamp'', VFloat (timestamp b)),
            (''transactions'', VList (map transaction_val (st (transactions b)))),
            (''proof'', VInt (block_proof b)),
            (''previous_hash'', VStr (previous_hash b))]"

text \<open>\<^verbatim>\<open>Blockchain.hash\<close>.\<close>

definition hash :: "pylib \<Rightarrow> (ref \<Rightarrow> transaction list) \<Rightarrow> block \<Rightarrow> string" where
  "hash L st b = sha256_hexdigest L (py_repr L (to_dict st b))"

text \<open>\<^verbatim>\<open>Blockchain.last_block\<close>: \<^verbatim>\<open>self.chain[-1]\<close> raises on an empty chain.\<close>

definition last_block :: "blockchain \<Rightarrow> py_error + block" where
  "last_block s = (case chain s of [] \<Rightarrow> Inl IndexError | _ # _ \<Rightarrow> Inr (last (chain s)))"

text \<open>
  \<^verbatim>\<open>Blockchain.create_block\<close>, at the time \<open>now\<close> that \<^verbatim>\<open>time.time()\<close> returns.
  \<^verbatim>\<open>previous_hash or self.hash(self.chain[-1])\<close> takes the argument when it is truthy
  (not \<^verbatim>\<open>None\<close>, not empty) and only otherwise reads the last block; the arguments of
  \<^verbatim>\<open>Block(...)\<close> are evaluated before anything is assigned, so a raise leaves the
  ledger as it was. \<^verbatim>\<open>self.pending_transactions = []\<close> allocates a new list.
\<close>

definition create_block ::
  "pylib \<Rightarrow> pyfloat \<Rightarrow> int \<Rightarrow> string option \<Rightarrow> blockchain \<Rightarrow> (py_error + block) \<times> blockchain" where
  "create_block L now prf prev s =
     (let fallback = (case last_block s of
                        Inl e \<Rightarrow> Inl e
                      | Inr b \<Rightarrow> Inr (hash L (store s) b));
          ph = (case prev of
                  None \<Rightarrow> fallback
                | Some h \<Rightarrow> if h \<noteq> [] then Inr h else fallback)
      in case ph of
           Inl e \<Rightarrow> (Inl e, s)
         | Inr h \<Rightarrow>
             (let blk = \<lparr>index = int (length (chain s)) + 1,
                         timestamp = now,
                         transactions = pending_transactions s,
                         block_proof = prf,
                         previous_hash = h\<rparr>
              in (Inr blk,
                  s\<lparr>pending_transactions := next_ref s,
                    store := (store s)(next_ref s := []),
                    next_ref := Suc (next_ref s),
                    chain := chain s @ [blk]\<rparr>)))"

text \<open>
  \<^verbatim>\<open>Blockchain.add_transaction\<close>: the append happens before \<^verbatim>\<open>self.last_block\<close> is
  read, so on an empty chain the transaction is queued and then IndexError is raised.
\<close>

definition add_transaction ::
  "string \<Rightarrow> string \<Rightarrow> number \<Rightarrow> blockchain \<Rightarrow> (py_error + int) \<times> blockchain" where
  "add_transaction sndr rcpt amt s =
     (let tx = \<lparr>sender = sndr, recipient = rcpt, amount = amt\<rparr>;
          p = pending_transactions s;
          s' = s\<lparr>store := (store s)(p := store s p @ [tx])\<rparr>
      in case last_block s' of
           Inl e \<Rightarrow> (Inl e, s')
         | Inr b \<Rightarrow> (Inr (index b + 1), s'))"

text \<open>\<^verbatim>\<open>Blockchain.valid_proof\<close>: \<^verbatim>\<open>guess_hash[:4] == "0000"\<close>.\<close>

definition valid_proof :: "pylib \<Rightarrow> int \<Rightarrow> int \<Rightarrow> bool" where
  "valid_proof L last_proof prf =
     (take 4 (sha256_hexdigest L (str_int last_proof @ str_int prf)) = ''0000'')"

text \<open>
  \<^verbatim>\<open>Blockchain.proof_of_work\<close>: the \<^verbatim>\<open>while\<close> loop has no bound, so the search is a
  partial function and \<open>None\<close> is the loop that never ends.
\<close>

partial_function (option) proof_search :: "pylib \<Rightarrow> int \<Rightarrow> int \<Rightarrow> int option" where
  "proof_search L last_proof prf =
     (if \<not> valid_proof L last_proof prf then proof_search L last_proof (prf + 1)
      else Some prf)"

declare proof_search.simps [code]

definition proof_of_work :: "pylib \<Rightarrow> int \<Rightarrow> int option" where
  "proof_of_work L last_proof = proof_search L last_proof 0"

text \<open>
  \<^verbatim>\<open>mine_block_gui\<close> on the global ledger: the proof is searched first, then the reward
  is queued, then the block is created. The message box and \<^verbatim>\<open>display_chain\<close> only
  read the ledger and are left out.
\<close>

definition mine_block_gui ::
  "pylib \<Rightarrow> pyfloat \<Rightarrow> blockchain \<Rightarrow> ((py_error + block) \<times> blockchain) option" where
  "mine_block_gui L now s =
     (case last_block s of
        Inl e \<Rightarrow> Some (Inl e, s)
      | Inr lb \<Rightarrow>
          (case proof_of_work L (block_proof lb) of
             None \<Rightarrow> None
           | Some p \<Rightarrow>
               (case add_transaction ''0'' ''miner_address'' (PyInt 1) s of
                  (Inl e, s1) \<Rightarrow> Some (Inl e, s1)
                | (Inr _, s1) \<Rightarrow> Some (create_block L now p None s1))))"

text \<open>
  \<^verbatim>\<open>Blockchain.__init__\<close>: an empty chain, a new empty pending list, then the genesis
  block.
\<close>

definition empty_ledger :: blockchain where
  "empty_ledger = \<lparr>chain = [], pending_transactions = 0, store = (\<lambda>_. []), next_ref = 1\<rparr>"

definition blockchain_init :: "pylib \<Rightarrow> pyfloat \<Rightarrow> (py_error + block) \<times> blockchain" where
  "blockchain_init L now = create_block L now 1 (Some ''0'') empty_ledger"

section \<open>Sequences of operations\<close>

text \<open>
  The calls a ledger can receive, each with the clock reading it sees. An operation that
  raises keeps the state it had reached, as the Tk main loop does with an exception in
  a callback; \<open>None\<close> is a mining search that never returns.
\<close>

datatype op =
    AddTransaction string string number
  | MineBlock pyfloat
  | CreateBlock pyfloat int "string option"

fun exec :: "pylib \<Rightarrow> op \<Rightarrow> blockchain \<Rightarrow> blockchain option" where
  "exec L (AddTransaction sndr rcpt amt) s = Some (snd (add_transaction sndr rcpt amt s))"
| "exec L (MineBlock now) s = map_option snd (mine_block_gui L now s)"
| "exec L (CreateBlock now prf prev) s = Some (snd (create_block L now prf prev s))"

fun run :: "pylib \<Rightarrow> op list \<Rightarrow> blockchain \<Rightarrow> blockchain option" where
  "run L [] s = Some s"
| "run L (x # xs) s = (case exec L x s of None \<Rightarrow> None | Some s' \<Rightarrow> run L xs s')"

text \<open>The form's two buttons: submitting a transaction and mining.\<close>

fun gui_op :: "op \<Rightarrow> bool" where
  "gui_op (CreateBlock now prf prev) = False"
| "gui_op _ = True"

text \<open>
  Operations that link a new block to the hash of the last one: everything except
  \<^verbatim>\<open>create_block\<close> with a truthy \<^verbatim>\<open>previous_hash\<close>.
\<close>

fun linking_op :: "op \<Rightarrow> bool" where
  "linking_op (CreateBlock now prf (Some h)) = (h = [])"
| "linking_op _ = True"


section \<open>Effects of the operations and invariants of the ledger\<close>

text \<open>
  The block that \<^verbatim>\<open>create_block\<close> builds when it does not raise, and the ledger it leaves.
\<close>

definition sealed :: "pyfloat \<Rightarrow> int \<Rightarrow> string \<Rightarrow> blockchain \<Rightarrow> block" where
  "sealed now prf h s =
     \<lparr>index = int (length (chain s)) + 1, timestamp = now,
      transactions = pending_transactions s, block_proof = prf, previous_hash = h\<rparr>"

definition seal_state :: "block \<Rightarrow> blockchain \<Rightarrow> blockchain" where
  "seal_state blk s =
     s\<lparr>pending_transactions := next_ref s, store := (store s)(next_ref s := []),
       next_ref := Suc (next_ref s), chain := chain s @ [blk]\<rparr>"

text \<open>
  Every reference the ledger holds is allocated, and no block shares its list of
  transactions with the pending queue.
\<close>

definition refs_ok :: "blockchain \<Rightarrow> bool" where
  "refs_ok s \<longleftrightarrow>
     pending_transactions s < next_ref s \<and>
     (\<forall>b \<in> set (chain s). transactions b < next_ref s \<and> transactions b \<noteq> pending_transactions s)"

text \<open>
  The blocks of \<open>s\<close> are still there in \<open>s'\<close>, at the same positions, with the same
  fields and the same transactions.
\<close>

definition unchanged_blocks :: "blockchain \<Rightarrow> blockchain \<Rightarrow> bool" where
  "unchanged_blocks s s' \<longleftrightarrow>
     length (chain s) \<le> length (chain s') \<and>
     (\<forall>i<length (chain s).
        chain s' ! i = chain s ! i \<and>
        store s' (transactions (chain s ! i)) = store s (transactions (chain s ! i)))"

text \<open>The three properties of a chain, over all adjacent pairs and all positions.\<close>

definition links_ok :: "pylib \<Rightarrow> blockchain \<Rightarrow> bool" where
  "links_ok L s \<longleftrightarrow>
     (\<forall>i. Suc i < length (chain s) \<longrightarrow>
        previous_hash (chain s ! Suc i) = hash L (store s) (chain s ! i))"

definition proofs_ok :: "pylib \<Rightarrow> blockchain \<Rightarrow> bool" where
  "proofs_ok L s \<longleftrightarrow>
     (\<forall>i. Suc i < length (chain s) \<longrightarrow>
        valid_proof L (block_proof (chain s ! i)) (block_proof (chain s ! Suc i)))"

definition index_ok :: "blockchain \<Rightarrow> bool" where
  "index_ok s \<longleftrightarrow> (\<forall>i<length (chain s). index (chain s ! i) = int i + 1)"

section \<open>A small runtime to run the model on\<close>

text \<open>
  An instance of the runtime whose digest can be computed by rewriting: the digest of a
  text is one decimal digit, the sum of its character codes modulo 4, written eight
  times. A float prints as the decimal value of its bit pattern and a string between
  single quotes. It is used on concrete inputs only; no theorem depends on it.
\<close>

definition checksum_digit :: "string \<Rightarrow> char" where
  "checksum_digit s = digit_char (sum_list (map of_char s) mod 4)"

definition checksum_digest :: "string \<Rightarrow> string" where
  "checksum_digest s =
     [checksum_digit s, checksum_digit s, checksum_digit s, checksum_digit s,
      checksum_digit s, checksum_digit s, checksum_digit s, checksum_digit s]"

definition checksum_lib :: pylib where
  "checksum_lib =
     \<lparr>sha256_hexdigest = checksum_digest,
      repr_float = (\<lambda>w. str_nat (unat w)),
      repr_str = (\<lambda>s. [CHR 0x27] @ s @ [CHR 0x27])\<rparr>"

text \<open>
  Three clock readings, as bit patterns: 1700000000.0, 1700000060.5 and 1700000121.25.
\<close>

definition clock_a :: pyfloat where "clock_a = 0x41D954FC40000000"

definition clock_b :: pyfloat where "clock_b = 0x41D954FC4F200000"

definition clock_c :: pyfloat where "clock_c = 0x41D954FC5E500000"

text \<open>The ledger right after construction, at the first clock reading.\<close>

definition fresh :: blockchain where
  "fresh = snd (blockchain_init checksum_lib clock_a)"

text \<open>
  A session on it: Alice pays Bob 10.0, a block is mined, and then either a second block
  is mined or Bob pays Carol 5 and a block is created by hand with proof 42 and previous
  hash \<^verbatim>\<open>"abc"\<close>. The three ledgers are written out in full.
\<close>

definition payment :: op where
  "payment = AddTransaction ''Alice'' ''Bob'' (PyFloat 0x4024000000000000)"

definition mined_once :: blockchain where
  "mined_once =
     \<lparr>chain =
        [\<lparr>index = 1, timestamp = clock_a, transactions = 0, block_proof = 1, previous_hash = ''0''\<rparr>,
         \<lparr>index = 2, timestamp = clock_b, transactions = 1, block_proof = 3,
            previous_hash = ''11111111''\<rparr>],
      pending_transactions = 2,
      store = (\<lambda>_. [])
        (1 := [\<lparr>sender = ''Alice'', recipient = ''Bob'', amount = PyFloat 0x4024000000000000\<rparr>,
               \<lparr>sender = ''0'', recipient = ''miner_address'', amount = PyInt 1\<rparr>],
         2 := []),
      next_ref = 3\<rparr>"

definition mined_twice :: blockchain where
  "mined_twice =
     \<lparr>chain =
        [\<lparr>index = 1, timestamp = clock_a, transactions = 0, block_proof = 1, previous_hash = ''0''\<rparr>,
         \<lparr>index = 2, timestamp = clock_b, transactions = 1, block_proof = 3,
            previous_hash = ''11111111''\<rparr>,
         \<lparr>index = 3, timestamp = clock_c, transactions = 2, block_proof = 1,
            previous_hash = ''22222222''\<rparr>],
      pending_transactions = 3,
      store = (\<lambda>_. [])
        (1 := [\<lparr>sender = ''Alice'', recipient = ''Bob'', amount = PyFloat 0x4024000000000000\<rparr>,
               \<lparr>sender = ''0'', recipient = ''miner_address'', amount = PyInt 1\<rparr>],
         2 := [\<lparr>sender = ''0'', recipient = ''miner_address'', amount = PyInt 1\<rparr>],
         3 := []),
      next_ref = 4\<rparr>"

definition forced :: blockchain where
  "forced =
     \<lparr>chain =
        [\<lparr>index = 1, timestamp = clock_a, transactions = 0, block_proof = 1, previous_hash = ''0''\<rparr>,
         \<lparr>index = 2, timestamp = clock_b, transactions = 1, block_proof = 3,
            previous_hash = ''11111111''\<rparr>,
         \<lparr>index = 3, timestamp = clock_c, transactions = 2, block_proof = 42,
            previous_hash = ''abc''\<rparr>],
      pending_transactions = 3,
      store = (\<lambda>_. [])
        (1 := [\<lparr>sender = ''Alice'', recipient = ''Bob'', amount = PyFloat 0x4024000000000000\<rparr>,
               \<lparr>sender = ''0'', recipient = ''miner_address'', amount = PyInt 1\<rparr>],
         2 := [\<lparr>sender = ''Bob'', recipient = ''Carol'', amount = PyInt 5\<rparr>],
         3 := []),
      next_ref = 4\<rparr>"

section \<open>How each operation changes the ledger\<close>

lemma add_transaction_state:
  "snd (add_transaction sndr rcpt amt s) =
     s\<lparr>store := (store s)(pending_transactions s :=
          store s (pending_transactions s) @ [\<lparr>sender = sndr, recipient = rcpt, amount = amt\<rparr>])\<rparr>"
  by (simp add: add_transaction_def Let_def last_block_def split: list.splits)


lemma create_block_given:
  "h \<noteq> [] \<Longrightarrow>
   create_block L now prf (Some h) s = (Inr (sealed now prf h s), seal_state (sealed now prf h s) s)"
  by (simp add: create_block_def Let_def sealed_def seal_state_def)

lemma create_block_default:
  "prev = None \<or> prev = Some [] \<Longrightarrow> chain s \<noteq> [] \<Longrightarrow>
   create_block L now prf prev s =
     (Inr (sealed now prf (hash L (store s) (last (chain s))) s),
      seal_state (sealed now prf (hash L (store s) (last (chain s))) s) s)"
  by (auto simp add: create_block_def Let_def sealed_def seal_state_def last_block_def split: list.splits)

lemma create_block_raises:
  "prev = None \<or> prev = Some [] \<Longrightarrow> chain s = [] \<Longrightarrow>
   create_block L now prf prev s = (Inl IndexError, s)"
  by (auto simp add: create_block_def Let_def last_block_def)

lemma create_block_cases:
  "create_block L now prf prev s = (Inl IndexError, s) \<or>
   (\<exists>h. create_block L now prf prev s = (Inr (sealed now prf h s), seal_state (sealed now prf h s) s))"
proof (cases "prev = None \<or> prev = Some []")
  case True
  then show ?thesis
    using create_block_raises [of prev s L now "prf"] create_block_default [of prev s L now "prf"]
    by (cases "chain s = []") auto
next
  case False
  then obtain h where "prev = Some h" "h \<noteq> []" by (cases prev) auto
  then show ?thesis using create_block_given [of h L now "prf" s] by auto
qed

lemma mine_block_gui_empty:
  "chain s = [] \<Longrightarrow> mine_block_gui L now s = Some (Inl IndexError, s)"
  by (simp add: mine_block_gui_def last_block_def)

lemma mine_block_gui_nonempty:
  "chain s \<noteq> [] \<Longrightarrow>
   mine_block_gui L now s =
     (case proof_of_work L (block_proof (last (chain s))) of
        None \<Rightarrow> None
      | Some p \<Rightarrow> Some (create_block L now p None (snd (add_transaction ''0'' ''miner_address'' (PyInt 1) s))))"
  by (cases "add_transaction ''0'' ''miner_address'' (PyInt 1) s")
     (auto simp add: mine_block_gui_def last_block_def add_transaction_def Let_def
           split: list.splits option.splits sum.splits)

lemma mine_block_gui_SomeD:
  assumes "chain s \<noteq> []" and "mine_block_gui L now s = Some (r, s')"
  obtains p where "proof_of_work L (block_proof (last (chain s))) = Some p"
    and "create_block L now p None (snd (add_transaction ''0'' ''miner_address'' (PyInt 1) s)) = (r, s')"
  using assms by (auto simp add: mine_block_gui_nonempty split: option.splits)

lemma refs_ok_add_transaction:
  "refs_ok s \<Longrightarrow> refs_ok (snd (add_transaction sndr rcpt amt s))"
  by (simp add: add_transaction_state refs_ok_def)

lemma refs_ok_seal_state:
  "refs_ok s \<Longrightarrow> refs_ok (seal_state (sealed now prf h s) s)"
  by (auto simp add: refs_ok_def seal_state_def sealed_def)

lemma refs_ok_create_block:
  "refs_ok s \<Longrightarrow> refs_ok (snd (create_block L now prf prev s))"
  using create_block_cases [of L now "prf" prev s] refs_ok_seal_state [of s now "prf"]
  by auto

lemma refs_ok_mine_block_gui:
  "refs_ok s \<Longrightarrow> mine_block_gui L now s = Some (r, s') \<Longrightarrow> refs_ok s'"
proof (cases "chain s = []")
  case True
  assume "refs_ok s" "mine_block_gui L now s = Some (r, s')"
  with True show ?thesis by (simp add: mine_block_gui_empty)
next
  case False
  assume ok: "refs_ok s" and m: "mine_block_gui L now s = Some (r, s')"
  from False m obtain p where
    "create_block L now p None (snd (add_transaction ''0'' ''miner_address'' (PyInt 1) s)) = (r, s')"
    by (rule mine_block_gui_SomeD)
  then have "s' = snd (create_block L now p None (snd (add_transaction ''0'' ''miner_address'' (PyInt 1) s)))"
    by simp
  with ok show ?thesis
    by (simp add: refs_ok_create_block refs_ok_add_transaction)
qed

lemma refs_ok_exec:
  "refs_ok s \<Longrightarrow> exec L x s = Some s' \<Longrightarrow> refs_ok s'"
  by (cases x) (auto simp add: refs_ok_add_transaction refs_ok_create_block
                     dest: refs_ok_mine_block_gui)

lemma refs_ok_run:
  "refs_ok s \<Longrightarrow> run L xs s = Some s' \<Longrightarrow> refs_ok s'"
proof (induction xs arbitrary: s)
  case Nil
  then show ?case by simp
next
  case (Cons x xs)
  then show ?case
    by (auto split: option.splits dest: refs_ok_exec)
qed

lemma blockchain_init_eq:
  "blockchain_init L now =
     (Inr (sealed now 1 ''0'' empty_ledger), seal_state (sealed now 1 ''0'' empty_ledger) empty_ledger)"
  by (simp add: blockchain_init_def create_block_given)

lemma refs_ok_init: "refs_ok (snd (blockchain_init L now))"
  by (simp add: blockchain_init_eq refs_ok_def seal_state_def sealed_def empty_ledger_def)

lemma proof_search_finds:
  "valid_proof L x (p + int k) \<Longrightarrow> (\<forall>j<k. \<not> valid_proof L x (p + int j)) \<Longrightarrow>
   proof_search L x p = Some (p + int k)"
proof (induction k arbitrary: p)
  case 0
  then show ?case by (simp add: proof_search.simps)
next
  case (Suc k)
  from Suc.prems(2) have not_here: "\<not> valid_proof L x p" by force
  have shift: "p + int (Suc j) = p + 1 + int j" for j by simp
  have later: "\<forall>j<k. \<not> valid_proof L x (p + 1 + int j)"
  proof (intro allI impI)
    fix j assume "j < k"
    then have "\<not> valid_proof L x (p + int (Suc j))" using Suc.prems(2) by blast
    then show "\<not> valid_proof L x (p + 1 + int j)" by (metis shift)
  qed
  from Suc.prems(1) have "valid_proof L x (p + 1 + int k)" by (simp only: shift)
  with later have found: "proof_search L x (p + 1) = Some (p + 1 + int k)" by (intro Suc.IH)
  have "proof_search L x p = proof_search L x (p + 1)"
    using not_here by (subst proof_search.simps) simp
  with found show ?case by (simp only: shift)
qed

lemma proof_search_SomeD:
  assumes "proof_search L x p = Some y"
  shows "p \<le> y \<and> valid_proof L x y \<and> (\<forall>q. p \<le> q \<and> q < y \<longrightarrow> \<not> valid_proof L x q)"
proof (rule proof_search.raw_induct
    [where P = "\<lambda>L x p y. p \<le> y \<and> valid_proof L x y \<and> (\<forall>q. p \<le> q \<and> q < y \<longrightarrow> \<not> valid_proof L x q)",
     OF _ assms])
  fix f :: "pylib \<Rightarrow> int \<Rightarrow> int \<Rightarrow> int option" and L x p y
  assume step: "\<And>L x p y. f L x p = Some y \<Longrightarrow>
      p \<le> y \<and> valid_proof L x y \<and> (\<forall>q. p \<le> q \<and> q < y \<longrightarrow> \<not> valid_proof L x q)"
    and eq: "(if \<not> valid_proof L x p then f L x (p + 1) else Some p) = Some y"
  show "p \<le> y \<and> valid_proof L x y \<and> (\<forall>q. p \<le> q \<and> q < y \<longrightarrow> \<not> valid_proof L x q)"
  proof (cases "valid_proof L x p")
    case True
    with eq show ?thesis by auto
  next
    case False
    with eq have "f L x (p + 1) = Some y" by simp
    then have ih: "p + 1 \<le> y \<and> valid_proof L x y \<and> (\<forall>q. p + 1 \<le> q \<and> q < y \<longrightarrow> \<not> valid_proof L x q)"
      by (rule step)
    have "\<not> valid_proof L x q" if "p \<le> q \<and> q < y" for q
    proof (cases "q = p")
      case True
      with False show ?thesis by simp
    next
      case False
      with that have "p + 1 \<le> q \<and> q < y" by simp
      with ih show ?thesis by blast
    qed
    with ih show ?thesis by auto
  qed
qed

lemma proof_of_work_SomeD:
  "proof_of_work L x = Some y \<Longrightarrow>
   0 \<le> y \<and> valid_proof L x y \<and> (\<forall>q. 0 \<le> q \<and> q < y \<longrightarrow> \<not> valid_proof L x q)"
  unfolding proof_of_work_def by (rule proof_search_SomeD)

lemma proof_of_work_diverges:
  assumes "\<And>c. 0 \<le> c \<Longrightarrow> \<not> valid_proof L x c"
  shows "proof_of_work L x = None"
proof (cases "proof_of_work L x")
  case None
  then show ?thesis .
next
  case (Some y)
  then have "0 \<le> y \<and> valid_proof L x y" by (simp add: proof_of_work_SomeD)
  with assms show ?thesis by blast
qed

lemma proof_of_work_total:
  assumes "0 \<le> c" and "valid_proof L x c"
  shows "\<exists>y. proof_of_work L x = Some y"
proof -
  define k where "k = (LEAST k. valid_proof L x (int k))"
  from assms have ex: "valid_proof L x (int (nat c))" by simp
  then have "valid_proof L x (int k)" unfolding k_def by (rule LeastI)
  moreover have "\<forall>j<k. \<not> valid_proof L x (int j)"
    unfolding k_def using not_less_Least by blast
  ultimately have "proof_search L x 0 = Some (0 + int k)"
    using proof_search_finds [of L x 0 k] by simp
  then show ?thesis by (simp add: proof_of_work_def)
qed

lemma run_invariant:
  assumes step: "\<And>x s s'. x \<in> set xs \<Longrightarrow> I s \<Longrightarrow> exec L x s = Some s' \<Longrightarrow> I s'"
    and start: "I s" and result: "run L xs s = Some s'"
  shows "I s'"
  using assms
proof (induction xs arbitrary: s)
  case Nil
  then show ?case by simp
next
  case (Cons x xs)
  from Cons.prems(3) obtain s1 where s1: "exec L x s = Some s1" and rest: "run L xs s1 = Some s'"
    by (auto split: option.splits)
  from Cons.prems(1) [of x s s1] Cons.prems(2) s1 have "I s1" by simp
  moreover have "I t'" if "y \<in> set xs" "I t" "exec L y t = Some t'" for y t t'
    using Cons.prems(1) [of y t t'] that by simp
  ultimately show ?case using rest Cons.IH by blast
qed

lemma exec_cases:
  assumes "exec L x s = Some s'"
  obtains (unchanged) "s' = s"
  | (queued) sndr rcpt amt where "x = AddTransaction sndr rcpt amt"
      "s' = snd (add_transaction sndr rcpt amt s)"
  | (created) now "prf" h where "x = CreateBlock now prf (Some h)" "h \<noteq> []"
      "s' = seal_state (sealed now prf h s) s"
  | (sealed) now "prf" where "chain s \<noteq> []" "\<exists>prev. x = CreateBlock now prf prev"
      "s' = seal_state (sealed now prf (hash L (store s) (last (chain s))) s) s"
  | (mined) now "prf" s1 where "chain s \<noteq> []" "x = MineBlock now"
      "proof_of_work L (block_proof (last (chain s))) = Some prf"
      "s1 = snd (add_transaction ''0'' ''miner_address'' (PyInt 1) s)"
      "s' = seal_state (sealed now prf (hash L (store s1) (last (chain s1))) s1) s1"
proof (cases x)
  case (AddTransaction sndr rcpt amt)
  with assms show ?thesis using queued by auto
next
  case (MineBlock now)
  show ?thesis
  proof (cases "chain s = []")
    case True
    with assms MineBlock show ?thesis using unchanged by (simp add: mine_block_gui_empty)
  next
    case False
    from assms MineBlock obtain r where m: "mine_block_gui L now s = Some (r, s')" by auto
    define s1 where "s1 = snd (add_transaction ''0'' ''miner_address'' (PyInt 1) s)"
    from False m obtain p where p: "proof_of_work L (block_proof (last (chain s))) = Some p"
      and c: "create_block L now p None s1 = (r, s')"
      unfolding s1_def by (rule mine_block_gui_SomeD)
    have ne: "chain s1 \<noteq> []" using False by (simp add: s1_def add_transaction_state)
    with c have "s' = seal_state (sealed now p (hash L (store s1) (last (chain s1))) s1) s1"
      by (simp add: create_block_default)
    with False MineBlock p s1_def show ?thesis using mined by blast
  qed
next
  case (CreateBlock now p prev)
  show ?thesis
  proof (cases "prev = None \<or> prev = Some []")
    case dflt: True
    show ?thesis
    proof (cases "chain s = []")
      case True
      with dflt assms CreateBlock show ?thesis using unchanged by (simp add: create_block_raises)
    next
      case False
      with dflt assms CreateBlock
      have "s' = seal_state (sealed now p (hash L (store s) (last (chain s))) s) s"
        by (simp add: create_block_default)
      with False CreateBlock show ?thesis using sealed by blast
    qed
  next
    case False
    then obtain h where "prev = Some h" "h \<noteq> []" by (cases prev) auto
    with assms CreateBlock show ?thesis using created by (simp add: create_block_given)
  qed
qed

lemma seal_state_fields [simp]:
  "chain (seal_state blk s) = chain s @ [blk]"
  "store (seal_state blk s) = (store s)(next_ref s := [])"
  "pending_transactions (seal_state blk s) = next_ref s"
  "next_ref (seal_state blk s) = Suc (next_ref s)"
  by (simp_all add: seal_state_def)

lemma sealed_fields [simp]:
  "index (sealed now prf h s) = int (length (chain s)) + 1"
  "timestamp (sealed now prf h s) = now"
  "transactions (sealed now prf h s) = pending_transactions s"
  "block_proof (sealed now prf h s) = prf"
  "previous_hash (sealed now prf h s) = h"
  by (simp_all add: sealed_def)

lemma add_transaction_fields [simp]:
  "chain (snd (add_transaction sndr rcpt amt s)) = chain s"
  "pending_transactions (snd (add_transaction sndr rcpt amt s)) = pending_transactions s"
  "next_ref (snd (add_transaction sndr rcpt amt s)) = next_ref s"
  "store (snd (add_transaction sndr rcpt amt s)) =
     (store s)(pending_transactions s :=
        store s (pending_transactions s) @ [\<lparr>sender = sndr, recipient = rcpt, amount = amt\<rparr>])"
  by (simp_all add: add_transaction_state)

lemma hash_store_cong:
  "st (transactions b) = st' (transactions b) \<Longrightarrow> hash L st b = hash L st' b"
  by (simp add: hash_def to_dict_def)

lemma unchanged_blocks_refl: "unchanged_blocks s s"
  by (simp add: unchanged_blocks_def)

lemma unchanged_blocks_trans:
  assumes st: "unchanged_blocks s t" and tu: "unchanged_blocks t u"
  shows "unchanged_blocks s u"
  unfolding unchanged_blocks_def
proof (intro conjI allI impI)
  show "length (chain s) \<le> length (chain u)"
    using st tu by (simp add: unchanged_blocks_def)
next
  fix i assume i: "i < length (chain s)"
  with st have it: "i < length (chain t)" and same: "chain t ! i = chain s ! i"
    and cells: "store t (transactions (chain s ! i)) = store s (transactions (chain s ! i))"
    by (simp_all add: unchanged_blocks_def)
  from tu it have "chain u ! i = chain t ! i"
    and "store u (transactions (chain t ! i)) = store t (transactions (chain t ! i))"
    by (simp_all add: unchanged_blocks_def)
  with same cells show "chain u ! i = chain s ! i"
    and "store u (transactions (chain s ! i)) = store s (transactions (chain s ! i))"
    by simp_all
qed

lemma refs_ok_nth:
  "refs_ok s \<Longrightarrow> i < length (chain s) \<Longrightarrow>
   transactions (chain s ! i) < next_ref s \<and> transactions (chain s ! i) \<noteq> pending_transactions s"
  by (simp add: refs_ok_def)

lemma unchanged_blocks_add_transaction:
  "refs_ok s \<Longrightarrow> unchanged_blocks s (snd (add_transaction sndr rcpt amt s))"
  by (auto simp add: unchanged_blocks_def dest: refs_ok_nth)

lemma unchanged_blocks_seal_state:
  "refs_ok s \<Longrightarrow> unchanged_blocks s (seal_state blk s)"
  by (auto simp add: unchanged_blocks_def nth_append dest: refs_ok_nth)

lemma unchanged_blocks_exec:
  assumes "refs_ok s" and "exec L x s = Some s'"
  shows "unchanged_blocks s s'"
  using assms(2)
proof (cases rule: exec_cases)
  case unchanged
  then show ?thesis by (simp add: unchanged_blocks_refl)
next
  case (queued sndr rcpt amt)
  with assms(1) show ?thesis by (simp add: unchanged_blocks_add_transaction)
next
  case (created now p h)
  with assms(1) show ?thesis by (simp add: unchanged_blocks_seal_state)
next
  case (sealed now p)
  with assms(1) show ?thesis by (simp add: unchanged_blocks_seal_state)
next
  case (mined now p s1)
  from assms(1) mined(4) have "unchanged_blocks s s1" "refs_ok s1"
    by (simp_all add: unchanged_blocks_add_transaction refs_ok_add_transaction)
  with mined(5) show ?thesis
    using unchanged_blocks_seal_state unchanged_blocks_trans by blast
qed

lemma unchanged_blocks_run:
  "refs_ok s \<Longrightarrow> run L xs s = Some s' \<Longrightarrow> unchanged_blocks s s'"
proof (induction xs arbitrary: s)
  case Nil
  then show ?case by (simp add: unchanged_blocks_refl)
next
  case (Cons x xs)
  from Cons.prems(2) obtain s1 where s1: "exec L x s = Some s1" and rest: "run L xs s1 = Some s'"
    by (auto split: option.splits)
  from Cons.prems(1) s1 have "unchanged_blocks s s1" "refs_ok s1"
    by (auto intro: unchanged_blocks_exec refs_ok_exec)
  with rest Cons.IH show ?case using unchanged_blocks_trans by blast
qed

lemma hash_unchanged:
  "unchanged_blocks s s' \<Longrightarrow> i < length (chain s) \<Longrightarrow>
   hash L (store s') (chain s ! i) = hash L (store s) (chain s ! i)"
  by (rule hash_store_cong) (simp add: unchanged_blocks_def)

lemma nth_last: "Suc i = length xs \<Longrightarrow> xs ! i = last xs"
  by (cases xs rule: rev_cases) (auto simp add: nth_append)

lemma links_ok_add_transaction:
  assumes "refs_ok s" and "links_ok L s"
  shows "links_ok L (snd (add_transaction sndr rcpt amt s))"
  unfolding links_ok_def
proof (intro allI impI)
  fix i
  let ?s' = "snd (add_transaction sndr rcpt amt s)"
  assume "Suc i < length (chain ?s')"
  then have i: "Suc i < length (chain s)" by simp
  have "unchanged_blocks s ?s'"
    using assms(1) by (rule unchanged_blocks_add_transaction)
  moreover from i have "i < length (chain s)" by simp
  ultimately have "hash L (store ?s') (chain s ! i) = hash L (store s) (chain s ! i)"
    by (rule hash_unchanged)
  with i assms(2) show "previous_hash (chain ?s' ! Suc i) = hash L (store ?s') (chain ?s' ! i)"
    by (simp add: links_ok_def)
qed

lemma links_ok_seal_state:
  assumes ok: "refs_ok s" and links: "links_ok L s"
  shows "links_ok L (seal_state (sealed now prf (hash L (store s) (last (chain s))) s) s)"
  unfolding links_ok_def
proof (intro allI impI)
  fix i
  let ?blk = "sealed now prf (hash L (store s) (last (chain s))) s"
  let ?s' = "seal_state ?blk s"
  assume "Suc i < length (chain ?s')"
  then have i: "i < length (chain s)" by simp
  have ub: "unchanged_blocks s ?s'" using ok by (rule unchanged_blocks_seal_state)
  from i have at_i: "chain ?s' ! i = chain s ! i" by (simp add: nth_append)
  from ub i have h: "hash L (store ?s') (chain s ! i) = hash L (store s) (chain s ! i)"
    by (rule hash_unchanged)
  show "previous_hash (chain ?s' ! Suc i) = hash L (store ?s') (chain ?s' ! i)"
  proof (cases "Suc i < length (chain s)")
    case True
    then have "chain ?s' ! Suc i = chain s ! Suc i" by (simp add: nth_append)
    with True links at_i h show ?thesis by (simp add: links_ok_def)
  next
    case False
    with i have len: "Suc i = length (chain s)" by simp
    then have "chain ?s' ! Suc i = ?blk" by simp
    moreover from len have "chain s ! i = last (chain s)" by (rule nth_last)
    ultimately show ?thesis using at_i h by simp
  qed
qed

lemma links_ok_first: "chain s = [] \<Longrightarrow> links_ok L (seal_state blk s)"
  by (simp add: links_ok_def)

lemma proofs_ok_add_transaction:
  "proofs_ok L s \<Longrightarrow> proofs_ok L (snd (add_transaction sndr rcpt amt s))"
  by (simp add: proofs_ok_def)

lemma proofs_ok_seal_state:
  assumes valid: "proofs_ok L s"
    and new: "valid_proof L (block_proof (last (chain s))) prf"
  shows "proofs_ok L (seal_state (sealed now prf h s) s)"
  unfolding proofs_ok_def
proof (intro allI impI)
  fix i
  let ?s' = "seal_state (sealed now prf h s) s"
  assume "Suc i < length (chain ?s')"
  then have i: "i < length (chain s)" by simp
  then have at_i: "chain ?s' ! i = chain s ! i" by (simp add: nth_append)
  show "valid_proof L (block_proof (chain ?s' ! i)) (block_proof (chain ?s' ! Suc i))"
  proof (cases "Suc i < length (chain s)")
    case True
    then have "chain ?s' ! Suc i = chain s ! Suc i" by (simp add: nth_append)
    with True valid at_i show ?thesis by (simp add: proofs_ok_def)
  next
    case False
    with i have len: "Suc i = length (chain s)" by simp
    then have "chain ?s' ! Suc i = sealed now prf h s" by simp
    moreover from len have "chain s ! i = last (chain s)" by (rule nth_last)
    ultimately show ?thesis using at_i new by simp
  qed
qed

lemma proofs_ok_first: "chain s = [] \<Longrightarrow> proofs_ok L (seal_state blk s)"
  by (simp add: proofs_ok_def)

lemma index_ok_add_transaction:
  "index_ok s \<Longrightarrow> index_ok (snd (add_transaction sndr rcpt amt s))"
  by (simp add: index_ok_def)

lemma index_ok_seal_state:
  "index_ok s \<Longrightarrow> index_ok (seal_state (sealed now prf h s) s)"
  by (auto simp add: index_ok_def nth_append less_Suc_eq)

lemma links_ok_exec:
  assumes inv: "refs_ok s \<and> links_ok L s" and op: "linking_op x" and ex: "exec L x s = Some s'"
  shows "refs_ok s' \<and> links_ok L s'"
proof
  from inv ex show "refs_ok s'" by (blast intro: refs_ok_exec)
  from ex show "links_ok L s'"
  proof (cases rule: exec_cases)
    case unchanged
    with inv show ?thesis by simp
  next
    case (queued sndr rcpt amt)
    with inv show ?thesis by (simp add: links_ok_add_transaction)
  next
    case (created now p h)
    with op show ?thesis by simp
  next
    case (sealed now p)
    with inv show ?thesis by (simp add: links_ok_seal_state)
  next
    case (mined now p s1)
    from inv mined(4) have "refs_ok s1" "links_ok L s1"
      by (simp_all add: refs_ok_add_transaction links_ok_add_transaction)
    with mined(5) show ?thesis by (simp add: links_ok_seal_state)
  qed
qed

lemma proofs_ok_exec:
  assumes inv: "proofs_ok L s" and op: "gui_op x" and ex: "exec L x s = Some s'"
  shows "proofs_ok L s'"
  using ex
proof (cases rule: exec_cases)
  case unchanged
  with inv show ?thesis by simp
next
  case (queued sndr rcpt amt)
  with inv show ?thesis by (simp add: proofs_ok_add_transaction)
next
  case (created now p h)
  with op show ?thesis by simp
next
  case (sealed now p)
  with op show ?thesis by auto
next
  case (mined now p s1)
  from mined(3) have "valid_proof L (block_proof (last (chain s))) p"
    by (simp add: proof_of_work_SomeD)
  with mined(4) have "valid_proof L (block_proof (last (chain s1))) p" by simp
  moreover from inv mined(4) have "proofs_ok L s1" by (simp add: proofs_ok_add_transaction)
  ultimately show ?thesis using mined(5) by (simp add: proofs_ok_seal_state)
qed

lemma index_ok_exec:
  assumes inv: "index_ok s" and ex: "exec L x s = Some s'"
  shows "index_ok s'"
  using ex
proof (cases rule: exec_cases)
  case (mined now p s1)
  from inv mined(4) have "index_ok s1" by (simp add: index_ok_add_transaction)
  with mined(5) show ?thesis by (simp add: index_ok_seal_state)
qed (use inv in \<open>simp_all add: index_ok_add_transaction index_ok_seal_state\<close>)

lemma init_state:
  "snd (blockchain_init L now) =
     \<lparr>chain = [\<lparr>index = 1, timestamp = now, transactions = 0, block_proof = 1, previous_hash = ''0''\<rparr>],
      pending_transactions = 1, store = (\<lambda>_. []), next_ref = 2\<rparr>"
  by (simp add: blockchain_init_eq seal_state_def sealed_def empty_ledger_def fun_eq_iff)

lemma init_invariants:
  "refs_ok (snd (blockchain_init L now))" "links_ok L (snd (blockchain_init L now))"
  "proofs_ok L (snd (blockchain_init L now))" "index_ok (snd (blockchain_init L now))"
  by (simp_all add: init_state refs_ok_def links_ok_def proofs_ok_def index_ok_def)





lemma take_four_zeros:
  "take 4 d = ''0000'' \<longleftrightarrow> 4 \<le> length d \<and> (\<forall>k<4. d ! k = CHR ''0'')"
proof
  assume eq: "take 4 d = ''0000''"
  then have "length (take 4 d) = 4" by simp
  then have len: "4 \<le> length d" by simp
  have "d ! k = CHR ''0''" if "k < 4" for k
  proof -
    from that have "d ! k = take 4 d ! k" by simp
    also from that have "\<dots> = CHR ''0''"
      unfolding eq by (auto simp add: less_Suc_eq numeral_eq_Suc)
    finally show ?thesis .
  qed
  with len show "4 \<le> length d \<and> (\<forall>k<4. d ! k = CHR ''0'')" by blast
next
  assume "4 \<le> length d \<and> (\<forall>k<4. d ! k = CHR ''0'')"
  then have len: "length (take 4 d) = length ''0000''" and chars: "\<forall>k<4. d ! k = CHR ''0''"
    by simp_all
  show "take 4 d = ''0000''"
  proof (rule nth_equalityI [OF len])
    fix k assume "k < length (take 4 d)"
    then have k: "k < 4" by simp
    then have "take 4 d ! k = d ! k" by simp
    also from k chars have "\<dots> = CHR ''0''" by blast
    also from k have "CHR ''0'' = ''0000'' ! k"
      by (auto simp add: less_Suc_eq numeral_eq_Suc)
    finally show "take 4 d ! k = ''0000'' ! k" .
  qed
qed

section \<open>Running the model on the small runtime\<close>

lemma digit_char_simps:
  "digit_char 0 = CHR ''0''" "digit_char 1 = CHR ''1''" "digit_char 2 = CHR ''2''"
  "digit_char 3 = CHR ''3''" "digit_char 4 = CHR ''4''" "digit_char 5 = CHR ''5''"
  "digit_char 6 = CHR ''6''" "digit_char 7 = CHR ''7''" "digit_char 8 = CHR ''8''"
  "digit_char 9 = CHR ''9''"
  by code_simp+

lemma digit_char_Suc_0: "digit_char (Suc 0) = CHR ''1''"
  using digit_char_simps(2) by simp

lemma checksum_lib_fields:
  "sha256_hexdigest checksum_lib = checksum_digest"
  "repr_float checksum_lib w = str_nat (unat w)"
  "repr_str checksum_lib t = [CHR 0x27] @ t @ [CHR 0x27]"
  by (simp_all add: checksum_lib_def)

lemmas checksum_eval = valid_proof_def checksum_lib_fields checksum_digest_def checksum_digit_def
  str_int_def str_nat.simps digit_char_simps digit_char_Suc_0

lemma pow_1: "proof_of_work checksum_lib 1 = Some 3"
  by (simp add: proof_of_work_def proof_search.simps checksum_eval)

lemma pow_3: "proof_of_work checksum_lib 3 = Some 1"
  by (simp add: proof_of_work_def proof_search.simps checksum_eval)

lemma fresh_state:
  "fresh =
     \<lparr>chain = [\<lparr>index = 1, timestamp = clock_a, transactions = 0, block_proof = 1, previous_hash = ''0''\<rparr>],
      pending_transactions = 1, store = (\<lambda>_. []), next_ref = 2\<rparr>"
  by (simp add: fresh_def init_state)

lemmas run_eval = add_transaction_state mine_block_gui_nonempty pow_1 pow_3
  create_block_default create_block_given sealed_def seal_state_def hash_def to_dict_def
  transaction_val_def checksum_eval clock_a_def clock_b_def clock_c_def

lemma run_mined_once: "run checksum_lib [payment, MineBlock clock_b] fresh = Some mined_once"
  by (simp add: payment_def fresh_state mined_once_def run_eval)

lemma run_mined_twice:
  "run checksum_lib [payment, MineBlock clock_b, MineBlock clock_c] fresh = Some mined_twice"
  by (simp add: payment_def fresh_state mined_twice_def run_eval)

lemma run_forced_tail:
  "run checksum_lib [AddTransaction ''Bob'' ''Carol'' (PyInt 5), CreateBlock clock_c 42 (Some ''abc'')]
     mined_once = Some forced"
  by (simp add: mined_once_def forced_def run_eval)

lemma run_forced:
  "run checksum_lib
     [payment, MineBlock clock_b, AddTransaction ''Bob'' ''Carol'' (PyInt 5), CreateBlock clock_c 42 (Some ''abc'')]
     fresh = Some forced"
  by (simp add: payment_def fresh_state forced_def run_eval)

section \<open>The genesis block\<close>

text \<open>
  C6 (genesis invariant). Constructing a \<^verbatim>\<open>Blockchain\<close> does not raise and leaves a
  chain of exactly one block, with index 1, proof 1, previous hash \<^verbatim>\<open>"0"\<close> and no
  transactions, and an empty pending queue.
\<close>

theorem genesis_invariant:
  "fst (blockchain_init L now) =
     Inr \<lparr>index = 1, timestamp = now, transactions = 0, block_proof = 1, previous_hash = ''0''\<rparr> \<and>
   chain (snd (blockchain_init L now)) =
     [\<lparr>index = 1, timestamp = now, transactions = 0, block_proof = 1, previous_hash = ''0''\<rparr>] \<and>
   store (snd (blockchain_init L now)) 0 = [] \<and>
   store (snd (blockchain_init L now)) (pending_transactions (snd (blockchain_init L now))) = []"
  by (simp add: init_state) (simp add: blockchain_init_eq sealed_def empty_ledger_def)

section \<open>Proof of work\<close>

text \<open>
  C2 (difficulty contract). For every seed \<open>X\<close> (non-negative or not) for which some
  non-negative candidate is valid, \<^verbatim>\<open>proof_of_work\<close> returns, and what it returns is the
  smallest non-negative valid candidate; a candidate is valid exactly when the digest of
  the two decimal strings, concatenated, has at least four characters and its first
  four are all \<^verbatim>\<open>0\<close>.
\<close>

theorem difficulty_contract:
  assumes "0 \<le> c" and "valid_proof L X c"
  shows "(\<exists>p. proof_of_work L X = Some p \<and> 0 \<le> p \<and> p \<le> c \<and> valid_proof L X p \<and>
              (\<forall>q. 0 \<le> q \<and> q < p \<longrightarrow> \<not> valid_proof L X q)) \<and>
         (\<forall>q. valid_proof L X q \<longleftrightarrow>
              4 \<le> length (sha256_hexdigest L (str_int X @ str_int q)) \<and>
              (\<forall>k<4. sha256_hexdigest L (str_int X @ str_int q) ! k = CHR ''0''))"
proof
  from assms obtain p where p: "proof_of_work L X = Some p"
    using proof_of_work_total by blast
  then have least: "0 \<le> p \<and> valid_proof L X p \<and> (\<forall>q. 0 \<le> q \<and> q < p \<longrightarrow> \<not> valid_proof L X q)"
    by (rule proof_of_work_SomeD)
  have "p \<le> c"
  proof (rule ccontr)
    assume "\<not> p \<le> c"
    with assms(1) least have "\<not> valid_proof L X c" by simp
    with assms(2) show False by simp
  qed
  with p least
  show "\<exists>p. proof_of_work L X = Some p \<and> 0 \<le> p \<and> p \<le> c \<and> valid_proof L X p \<and>
            (\<forall>q. 0 \<le> q \<and> q < p \<longrightarrow> \<not> valid_proof L X q)"
    by blast
next
  show "\<forall>q. valid_proof L X q \<longleftrightarrow>
            4 \<le> length (sha256_hexdigest L (str_int X @ str_int q)) \<and>
            (\<forall>k<4. sha256_hexdigest L (str_int X @ str_int q) ! k = CHR ''0'')"
    by (simp add: valid_proof_def take_four_zeros)
qed

text \<open>
  On the small runtime and seed 1 the candidates 3 and 7 are valid; the search returns 3,
  after rejecting 0, 1 and 2.
\<close>

theorem difficulty_contract_witness:
  "(0::int) \<le> 7 \<and> valid_proof checksum_lib 1 7 \<and>
   proof_of_work checksum_lib 1 = Some 3 \<and> valid_proof checksum_lib 1 3 \<and>
   \<not> valid_proof checksum_lib 1 0 \<and> \<not> valid_proof checksum_lib 1 1 \<and>
   \<not> valid_proof checksum_lib 1 2"
proof -
  have seven: "valid_proof checksum_lib 1 7" by (simp add: checksum_eval)
  from difficulty_contract [of 7 checksum_lib 1, OF _ seven]
  obtain p where "proof_of_work checksum_lib 1 = Some p" and "valid_proof checksum_lib 1 p"
    and "\<forall>q. 0 \<le> q \<and> q < p \<longrightarrow> \<not> valid_proof checksum_lib 1 q"
    by auto
  with seven show ?thesis by (auto simp add: pow_1)
qed

section \<open>The hash of a block\<close>

text \<open>
  C9 (hash determinism). The hash of a block depends only on its five fields, the list
  of transactions taken by its contents: two blocks with equal index, timestamp,
  transactions, proof and previous hash have the same digest, even when their lists of
  transactions are different objects; in particular hashing one block twice gives the
  same digest.
\<close>

theorem hash_deterministic:
  assumes "index a = index b" and "timestamp a = timestamp b"
    and "st (transactions a) = st' (transactions b)"
    and "block_proof a = block_proof b" and "previous_hash a = previous_hash b"
  shows "hash L st a = hash L st' b"
  using assms by (simp add: hash_def to_dict_def)

text \<open>
  Two blocks with the same fields whose transactions are different list objects, in
  different stores, with the same contents.
\<close>

theorem hash_deterministic_witness:
  "index (chain mined_once ! 1) = index \<lparr>index = 2, timestamp = clock_b, transactions = 5, block_proof = 3, previous_hash = ''11111111''\<rparr> \<and>
   timestamp (chain mined_once ! 1) = timestamp \<lparr>index = 2, timestamp = clock_b, transactions = 5, block_proof = 3, previous_hash = ''11111111''\<rparr> \<and>
   store mined_once (transactions (chain mined_once ! 1)) =
     ((\<lambda>_. [])(5 := store mined_once 1))
       (transactions \<lparr>index = 2, timestamp = clock_b, transactions = 5, block_proof = 3, previous_hash = ''11111111''\<rparr>) \<and>
   transactions (chain mined_once ! 1) \<noteq> 5 \<and>
   hash checksum_lib (store mined_once) (chain mined_once ! 1) =
     hash checksum_lib ((\<lambda>_. [])(5 := store mined_once 1))
       \<lparr>index = 2, timestamp = clock_b, transactions = 5, block_proof = 3, previous_hash = ''11111111''\<rparr>"
  using hash_deterministic [of "chain mined_once ! 1"
      "\<lparr>index = 2, timestamp = clock_b, transactions = 5, block_proof = 3, previous_hash = ''11111111''\<rparr>"
      "store mined_once" "(\<lambda>_. [])(5 := store mined_once 1)" checksum_lib]
  by (simp add: mined_once_def)

section \<open>Creating a block\<close>

text \<open>
  C10 (empty previous hash). On a non-empty chain, \<^verbatim>\<open>create_block\<close> called with the
  empty string as \<^verbatim>\<open>previous_hash\<close> does exactly what it does with no
  \<^verbatim>\<open>previous_hash\<close>: it appends a block whose previous hash is the hash of the block
  that was last, which is not the empty string whenever that digest is not empty (a
  SHA-256 hex digest has 64 characters).
\<close>

theorem create_block_empty_previous_hash:
  assumes "chain s \<noteq> []"
  shows "create_block L now prf (Some []) s = create_block L now prf None s \<and>
         (\<exists>blk s'. create_block L now prf (Some []) s = (Inr blk, s') \<and>
            chain s' = chain s @ [blk] \<and>
            previous_hash blk = hash L (store s) (last (chain s)) \<and>
            (hash L (store s) (last (chain s)) \<noteq> [] \<longrightarrow> previous_hash blk \<noteq> []))"
  using assms by (simp add: create_block_default)

text \<open>
  On the fresh ledger the block created with the empty string gets the hash of the
  genesis block, as the block created with no previous hash does.
\<close>

theorem create_block_empty_previous_hash_witness:
  "chain fresh \<noteq> [] \<and>
   create_block checksum_lib clock_b 5 (Some []) fresh = create_block checksum_lib clock_b 5 None fresh \<and>
   fst (create_block checksum_lib clock_b 5 (Some []) fresh) =
     Inr \<lparr>index = 2, timestamp = clock_b, transactions = 1, block_proof = 5,
          previous_hash = ''11111111''\<rparr> \<and>
   hash checksum_lib (store fresh) (last (chain fresh)) = ''11111111''"
proof -
  have ne: "chain fresh \<noteq> []" by (simp add: fresh_state)
  from create_block_empty_previous_hash [OF ne, of checksum_lib clock_b 5]
  have "create_block checksum_lib clock_b 5 (Some []) fresh = create_block checksum_lib clock_b 5 None fresh"
    by simp
  then show ?thesis by (simp add: fresh_state run_eval)
qed

section \<open>Submitting a transaction\<close>




section \<open>Mining\<close>

text \<open>
  C4 (queue transfer). On a non-empty chain whose pending list is an allocated object,
  and when some non-negative candidate is a valid proof for the last block's proof,
  \<^verbatim>\<open>mine_block_gui\<close> returns; the block it appends holds exactly the transactions that
  were pending before the call, in order, followed by the reward transaction from
  \<^verbatim>\<open>"0"\<close> to \<^verbatim>\<open>"miner_address"\<close> of amount 1, and the pending queue is empty
  afterwards.
\<close>

theorem queue_transfer:
  assumes "chain s \<noteq> []" and "pending_transactions s < next_ref s"
    and "0 \<le> c" and "valid_proof L (block_proof (last (chain s))) c"
  shows "\<exists>blk s'. mine_block_gui L now s = Some (Inr blk, s') \<and>
           chain s' = chain s @ [blk] \<and>
           store s' (transactions blk) =
             store s (pending_transactions s) @
               [\<lparr>sender = ''0'', recipient = ''miner_address'', amount = PyInt 1\<rparr>] \<and>
           store s' (pending_transactions s') = []"
proof -
  from assms(3,4) obtain p where "proof_of_work L (block_proof (last (chain s))) = Some p"
    using proof_of_work_total by blast
  with assms(1,2) show ?thesis
    by (simp add: mine_block_gui_nonempty create_block_default)
qed

text \<open>
  Mining on the fresh ledger after Alice's payment: the new block holds the payment and
  then the reward.
\<close>

theorem queue_transfer_witness:
  "chain (snd (add_transaction ''Alice'' ''Bob'' (PyFloat 0x4024000000000000) fresh)) \<noteq> [] \<and>
   pending_transactions (snd (add_transaction ''Alice'' ''Bob'' (PyFloat 0x4024000000000000) fresh))
     < next_ref (snd (add_transaction ''Alice'' ''Bob'' (PyFloat 0x4024000000000000) fresh)) \<and>
   (0::int) \<le> 7 \<and>
   valid_proof checksum_lib
     (block_proof (last (chain (snd (add_transaction ''Alice'' ''Bob'' (PyFloat 0x4024000000000000) fresh))))) 7 \<and>
   mine_block_gui checksum_lib clock_b (snd (add_transaction ''Alice'' ''Bob'' (PyFloat 0x4024000000000000) fresh)) =
     Some (Inr (chain mined_once ! 1), mined_once) \<and>
   store mined_once (transactions (chain mined_once ! 1)) =
     [\<lparr>sender = ''Alice'', recipient = ''Bob'', amount = PyFloat 0x4024000000000000\<rparr>,
      \<lparr>sender = ''0'', recipient = ''miner_address'', amount = PyInt 1\<rparr>] \<and>
   store mined_once (pending_transactions mined_once) = []"
proof -
  let ?s = "snd (add_transaction ''Alice'' ''Bob'' (PyFloat 0x4024000000000000) fresh)"
  have a: "chain ?s \<noteq> []" and b: "pending_transactions ?s < next_ref ?s"
    by (simp_all add: fresh_state)
  have c: "valid_proof checksum_lib (block_proof (last (chain ?s))) 7"
    by (simp add: fresh_state checksum_eval)
  have z: "(0::int) \<le> 7" by simp
  have m: "mine_block_gui checksum_lib clock_b ?s = Some (Inr (chain mined_once ! 1), mined_once)"
    by (simp add: fresh_state mined_once_def run_eval)
  have t: "store mined_once (transactions (chain mined_once ! 1)) =
      [\<lparr>sender = ''Alice'', recipient = ''Bob'', amount = PyFloat 0x4024000000000000\<rparr>,
       \<lparr>sender = ''0'', recipient = ''miner_address'', amount = PyInt 1\<rparr>]"
    and q: "store mined_once (pending_transactions mined_once) = []"
    by (simp_all add: mined_once_def)
  from queue_transfer [OF a b z c, of clock_b] a b z c m t q show ?thesis by blast
qed

section \<open>Invariants of every reachable ledger\<close>

text \<open>
  C1 (hash chaining). In every ledger reached from a freshly constructed one by a
  sequence of submissions and minings (and, more generally, of any operations other than
  \<^verbatim>\<open>create_block\<close> with a truthy \<^verbatim>\<open>previous_hash\<close>), each block after the first
  carries as previous hash the hash of the block before it, computed on the ledger as it
  is now.
\<close>

theorem hash_chaining:
  assumes "run L ops (snd (blockchain_init L t0)) = Some s"
    and "list_all linking_op ops"
    and "Suc i < length (chain s)"
  shows "previous_hash (chain s ! Suc i) = hash L (store s) (chain s ! i)"
proof -
  have "refs_ok s \<and> links_ok L s"
  proof (rule run_invariant [where I = "\<lambda>s. refs_ok s \<and> links_ok L s", OF _ _ assms(1)])
    fix x t t'
    assume mem: "x \<in> set ops" and inv: "refs_ok t \<and> links_ok L t"
      and ex: "exec L x t = Some t'"
    from mem assms(2) have "linking_op x" by (simp add: list_all_iff)
    from inv this ex show "refs_ok t' \<and> links_ok L t'" by (rule links_ok_exec)
  next
    show "refs_ok (snd (blockchain_init L t0)) \<and> links_ok L (snd (blockchain_init L t0))"
      by (simp add: init_invariants)
  qed
  with assms(3) show ?thesis by (simp add: links_ok_def)
qed

text \<open>The third block of the ledger mined twice carries the hash of the second.\<close>

theorem hash_chaining_witness:
  "run checksum_lib [payment, MineBlock clock_b, MineBlock clock_c] (snd (blockchain_init checksum_lib clock_a)) =
     Some mined_twice \<and>
   list_all linking_op [payment, MineBlock clock_b, MineBlock clock_c] \<and>
   Suc 1 < length (chain mined_twice) \<and>
   previous_hash (chain mined_twice ! Suc 1) =
     hash checksum_lib (store mined_twice) (chain mined_twice ! 1) \<and>
   previous_hash (chain mined_twice ! Suc 1) = ''22222222''"
proof -
  have r: "run checksum_lib [payment, MineBlock clock_b, MineBlock clock_c] (snd (blockchain_init checksum_lib clock_a)) =
      Some mined_twice"
    using run_mined_twice by (simp add: fresh_def)
  have l: "list_all linking_op [payment, MineBlock clock_b, MineBlock clock_c]" by (simp add: payment_def)
  have n: "Suc 1 < length (chain mined_twice)" by (simp add: mined_twice_def)
  from hash_chaining [OF r l n] r l n show ?thesis by (simp add: mined_twice_def)
qed

text \<open>
  C3 (proof validity). In every ledger reached from a freshly constructed one by a
  sequence of submissions and minings, the proof of each block after the first is a
  valid proof for the proof of the block before it.
\<close>

theorem proof_validity:
  assumes "run L ops (snd (blockchain_init L t0)) = Some s"
    and "list_all gui_op ops"
    and "Suc i < length (chain s)"
  shows "valid_proof L (block_proof (chain s ! i)) (block_proof (chain s ! Suc i))"
proof -
  have "proofs_ok L s"
  proof (rule run_invariant [where I = "proofs_ok L", OF _ _ assms(1)])
    fix x t t'
    assume mem: "x \<in> set ops" and inv: "proofs_ok L t" and ex: "exec L x t = Some t'"
    from mem assms(2) have "gui_op x" by (simp add: list_all_iff)
    from inv this ex show "proofs_ok L t'" by (rule proofs_ok_exec)
  next
    show "proofs_ok L (snd (blockchain_init L t0))" by (simp add: init_invariants)
  qed
  with assms(3) show ?thesis by (simp add: proofs_ok_def)
qed

text \<open>In the ledger mined twice, 1 is a valid proof for 3, the proof of the second block.\<close>

theorem proof_validity_witness:
  "run checksum_lib [payment, MineBlock clock_b, MineBlock clock_c] (snd (blockchain_init checksum_lib clock_a)) =
     Some mined_twice \<and>
   list_all gui_op [payment, MineBlock clock_b, MineBlock clock_c] \<and>
   Suc 1 < length (chain mined_twice) \<and>
   valid_proof checksum_lib (block_proof (chain mined_twice ! 1))
     (block_proof (chain mined_twice ! Suc 1)) \<and>
   block_proof (chain mined_twice ! 1) = 3 \<and> block_proof (chain mined_twice ! Suc 1) = 1"
proof -
  have r: "run checksum_lib [payment, MineBlock clock_b, MineBlock clock_c] (snd (blockchain_init checksum_lib clock_a)) =
      Some mined_twice"
    using run_mined_twice by (simp add: fresh_def)
  have l: "list_all gui_op [payment, MineBlock clock_b, MineBlock clock_c]" by (simp add: payment_def)
  have n: "Suc 1 < length (chain mined_twice)" by (simp add: mined_twice_def)
  from proof_validity [OF r l n] r l n show ?thesis by (simp add: mined_twice_def)
qed

text \<open>
  C7 (monotonic indices). In every ledger reached from a freshly constructed one by any
  sequence of submissions, minings and calls of \<^verbatim>\<open>create_block\<close> (with any proof and
  any \<^verbatim>\<open>previous_hash\<close>), the chain is not empty and the block at position \<open>i\<close>,
  counted from 0, has index \<open>i + 1\<close>, whatever was pending when it was created.
\<close>

theorem monotonic_indices:
  assumes "run L ops (snd (blockchain_init L t0)) = Some s"
  shows "chain s \<noteq> [] \<and> (\<forall>i<length (chain s). index (chain s ! i) = int i + 1)"
proof
  have "unchanged_blocks (snd (blockchain_init L t0)) s"
    using init_invariants(1) assms by (rule unchanged_blocks_run)
  then have "length (chain (snd (blockchain_init L t0))) \<le> length (chain s)"
    by (simp add: unchanged_blocks_def)
  then show "chain s \<noteq> []" by (auto simp add: init_state)
next
  have "index_ok s"
  proof (rule run_invariant [where I = index_ok, OF _ _ assms])
    fix x t t'
    assume "index_ok t" and "exec L x t = Some t'"
    then show "index_ok t'" by (rule index_ok_exec)
  next
    show "index_ok (snd (blockchain_init L t0))" by (simp add: init_invariants)
  qed
  then show "\<forall>i<length (chain s). index (chain s ! i) = int i + 1"
    by (simp add: index_ok_def)
qed

text \<open>
  The ledger with a block created by hand, after one pending transaction, has indices
  1, 2, 3.
\<close>

theorem monotonic_indices_witness:
  "run checksum_lib
     [payment, MineBlock clock_b, AddTransaction ''Bob'' ''Carol'' (PyInt 5), CreateBlock clock_c 42 (Some ''abc'')]
     (snd (blockchain_init checksum_lib clock_a)) = Some forced \<and>
   chain forced \<noteq> [] \<and> length (chain forced) = 3 \<and>
   index (chain forced ! 0) = 1 \<and> index (chain forced ! 1) = 2 \<and> index (chain forced ! 2) = 3"
proof -
  have r: "run checksum_lib
     [payment, MineBlock clock_b, AddTransaction ''Bob'' ''Carol'' (PyInt 5), CreateBlock clock_c 42 (Some ''abc'')]
     (snd (blockchain_init checksum_lib clock_a)) = Some forced"
    using run_forced by (simp add: fresh_def)
  from monotonic_indices [OF r] r show ?thesis by (simp add: forced_def)
qed

text \<open>
  C8 (sealed-block stability). Take a ledger reached from a freshly constructed one by
  any operations, and run any further operations on it. Every block that was in the
  chain is still there, at the same position, with the same fields, and its list of
  transactions has the same contents: appending to the pending queue, mining and
  creating blocks never change a block that exists.
\<close>

theorem sealed_block_stable:
  assumes "run L ops0 (snd (blockchain_init L t0)) = Some s"
    and "run L ops s = Some s'"
    and "i < length (chain s)"
  shows "i < length (chain s') \<and> chain s' ! i = chain s ! i \<and>
         store s' (transactions (chain s' ! i)) = store s (transactions (chain s ! i))"
proof -
  have "refs_ok s" using init_invariants(1) assms(1) by (rule refs_ok_run)
  then have "unchanged_blocks s s'" using assms(2) by (rule unchanged_blocks_run)
  with assms(3) show ?thesis by (simp add: unchanged_blocks_def)
qed

text \<open>
  The block mined first is the same, with the same two transactions, after a further
  submission and a block created by hand.
\<close>

theorem sealed_block_stable_witness:
  "run checksum_lib [payment, MineBlock clock_b] (snd (blockchain_init checksum_lib clock_a)) = Some mined_once \<and>
   run checksum_lib [AddTransaction ''Bob'' ''Carol'' (PyInt 5), CreateBlock clock_c 42 (Some ''abc'')]
     mined_once = Some forced \<and>
   1 < length (chain mined_once) \<and> 1 < length (chain forced) \<and>
   chain forced ! 1 = chain mined_once ! 1 \<and>
   store forced (transactions (chain forced ! 1)) =
     store mined_once (transactions (chain mined_once ! 1))"
proof -
  have r: "run checksum_lib [payment, MineBlock clock_b] (snd (blockchain_init checksum_lib clock_a)) =
      Some mined_once"
    using run_mined_once by (simp add: fresh_def)
  have n: "1 < length (chain mined_once)" by (simp add: mined_once_def)
  from sealed_block_stable [OF r run_forced_tail n] r run_forced_tail n
  show ?thesis by blast
qed

end
